theory Spec2Isabelle
  imports Main "HOL-Library.Word"
begin

section \<open>The gid-to-lid change handler (proton/reference/gid_to_lid_change_handler.cpp)\<close>

subsection \<open>Data model\<close>

text \<open>
  A global id is an opaque key of the pending-remove hash map; a local id is the
  \<open>uint32_t\<close> that \<open>notifyPutDone\<close> hands through to the listeners.
\<close>

type_synonym GlobalId = nat

type_synonym lid = "32 word"

text \<open>
  Modelled from the spec: the header gid_to_lid_change_handler.h, which declares
  \<open>SerialNum\<close>, the struct \<open>PendingRemoveEntry\<close> and its constructor, is not among the
  sources. The spec calls a serial number a totally ordered integer and \<open>refCount\<close> a
  count of outstanding removes, so both are natural numbers here; the code only compares
  serial numbers. A fresh entry gets \<open>removeSerialNum = serial\<close>, \<open>refCount = 1\<close> and an
  unset \<open>putSerialNum\<close>, "a value lower than any valid serial number": the least value
  \<open>0\<close>, which makes the valid serial numbers the positive ones.
\<close>

type_synonym SerialNum = nat

record PendingRemoveEntry =
  removeSerialNum :: SerialNum
  putSerialNum :: SerialNum
  refCount :: nat

definition unsetSerialNum :: SerialNum where
  "unsetSerialNum = 0"

definition validSerialNum :: "SerialNum \<Rightarrow> bool" where
  "validSerialNum serialNum = (unsetSerialNum < serialNum)"

definition newPendingRemoveEntry :: "SerialNum \<Rightarrow> PendingRemoveEntry" where
  "newPendingRemoveEntry serialNum =
     \<lparr>removeSerialNum = serialNum, putSerialNum = unsetSerialNum, refCount = 1\<rparr>"

text \<open>
  A listener is an object behind \<open>IGidToLidChangeListener\<close>: \<open>listenerId\<close> tells two
  objects apart, \<open>getDocTypeName\<close> and \<open>getName\<close> are what the handler reads from it.
  The handler calls back into a listener; each call is recorded as a delivery, the
  listener together with the callback and its arguments.
\<close>

record Listener =
  listenerId :: nat
  getDocTypeName :: string
  getName :: string

datatype callback =
    CbPutDone GlobalId lid
  | CbRemove GlobalId
  | CbRegistered

type_synonym delivery = "Listener \<times> callback"

record Handler =
  listeners :: "Listener list"
  closed :: bool
  pendingRemove :: "GlobalId \<rightharpoonup> PendingRemoveEntry"

text \<open>The constructor: open, no listeners, no pending removes.\<close>

definition newHandler :: Handler where
  "newHandler = \<lparr>listeners = [], closed = False, pendingRemove = Map.empty\<rparr>"

subsection \<open>Operations\<close>

text \<open>
  Every operation returns the callbacks it made, in order, and the new state; \<open>None\<close>
  is a failed \<open>assert\<close>, which aborts the process.

  The two fan-out loops \<open>notifyPutDone(gid, lid)\<close> and \<open>notifyRemove(gid)\<close>.
\<close>

fun notifyPutDone_listeners :: "Listener list \<Rightarrow> GlobalId \<Rightarrow> lid \<Rightarrow> delivery list" where
  "notifyPutDone_listeners [] gid l = []"
| "notifyPutDone_listeners (listener # rest) gid l =
     (listener, CbPutDone gid l) # notifyPutDone_listeners rest gid l"

fun notifyRemove_listeners :: "Listener list \<Rightarrow> GlobalId \<Rightarrow> delivery list" where
  "notifyRemove_listeners [] gid = []"
| "notifyRemove_listeners (listener # rest) gid =
     (listener, CbRemove gid) # notifyRemove_listeners rest gid"

definition notifyPutDone ::
  "Handler \<Rightarrow> GlobalId \<Rightarrow> lid \<Rightarrow> SerialNum \<Rightarrow> (delivery list \<times> Handler) option" where
  "notifyPutDone h gid l serialNum =
     (case pendingRemove h gid of
        None \<Rightarrow> Some (notifyPutDone_listeners (listeners h) gid l, h)
      | Some entry \<Rightarrow>
          if \<not> removeSerialNum entry \<noteq> serialNum then None
          else if removeSerialNum entry > serialNum then Some ([], h)
          else if \<not> putSerialNum entry < serialNum then None
          else Some (notifyPutDone_listeners (listeners h) gid l,
                     h\<lparr>pendingRemove :=
                         (pendingRemove h)(gid \<mapsto> entry\<lparr>putSerialNum := serialNum\<rparr>)\<rparr>))"

definition notifyRemove ::
  "Handler \<Rightarrow> GlobalId \<Rightarrow> SerialNum \<Rightarrow> (delivery list \<times> Handler) option" where
  "notifyRemove h gid serialNum =
     (case pendingRemove h gid of
        Some entry \<Rightarrow>
          if \<not> removeSerialNum entry < serialNum then None
          else if \<not> putSerialNum entry < serialNum then None
          else Some ((if removeSerialNum entry < putSerialNum entry
                      then notifyRemove_listeners (listeners h) gid else []),
                     h\<lparr>pendingRemove :=
                         (pendingRemove h)(gid \<mapsto>
                            entry\<lparr>removeSerialNum := serialNum,
                                  refCount := refCount entry + 1\<rparr>)\<rparr>)
      | None \<Rightarrow>
          Some (notifyRemove_listeners (listeners h) gid,
                h\<lparr>pendingRemove :=
                    (pendingRemove h)(gid \<mapsto> newPendingRemoveEntry serialNum)\<rparr>))"

text \<open>
  \<open>notifyRemoveDone\<close> erases the entry at \<open>refCount == 1\<close> and decrements otherwise. No
  state the handler reaches holds an entry with \<open>refCount\<close> zero (lemma
  \<open>run_refCountsPositive\<close> below), so the decrement starts from two or more and the
  truncated subtraction of the natural numbers never applies.
\<close>

definition notifyRemoveDone ::
  "Handler \<Rightarrow> GlobalId \<Rightarrow> SerialNum \<Rightarrow> (delivery list \<times> Handler) option" where
  "notifyRemoveDone h gid serialNum =
     (case pendingRemove h gid of
        None \<Rightarrow> None
      | Some entry \<Rightarrow>
          if \<not> removeSerialNum entry \<ge> serialNum then None
          else if refCount entry = 1
          then Some ([], h\<lparr>pendingRemove := (pendingRemove h)(gid := None)\<rparr>)
          else Some ([], h\<lparr>pendingRemove :=
                             (pendingRemove h)(gid \<mapsto>
                                entry\<lparr>refCount := refCount entry - 1\<rparr>)\<rparr>))"

text \<open>
  \<open>close\<close> swaps the registry into a local vector that dies at the end of the call;
  destroying a listener makes no callback.
\<close>

definition close :: "Handler \<Rightarrow> (delivery list \<times> Handler) option" where
  "close h = Some ([], h\<lparr>closed := True, listeners := []\<rparr>)"

text \<open>The scan of \<open>addListener\<close> for a listener of the same document type and name.\<close>

fun hasListener :: "Listener list \<Rightarrow> string \<Rightarrow> string \<Rightarrow> bool" where
  "hasListener [] docTypeName name = False"
| "hasListener (oldlistener # rest) docTypeName name =
     (if getDocTypeName oldlistener = docTypeName \<and> getName oldlistener = name then True
      else hasListener rest docTypeName name)"

definition addListener :: "Handler \<Rightarrow> Listener \<Rightarrow> (delivery list \<times> Handler) option" where
  "addListener h listener =
     (if \<not> closed h then
        (if hasListener (listeners h) (getDocTypeName listener) (getName listener)
         then Some ([], h)
         else Some ([(listener, CbRegistered)], h\<lparr>listeners := listeners h @ [listener]\<rparr>))
      else if listeners h = [] then Some ([], h) else None)"

definition shouldRemoveListener :: "Listener \<Rightarrow> string \<Rightarrow> string set \<Rightarrow> bool" where
  "shouldRemoveListener listener docTypeName keepNames =
     (getDocTypeName listener = docTypeName \<and> getName listener \<notin> keepNames)"

text \<open>
  The erase loop of \<open>removeListeners\<close>: the listeners left in the registry and the ones
  moved to \<open>deferredDelete\<close>, both in registry order.
\<close>

fun removeListeners_loop ::
  "Listener list \<Rightarrow> string \<Rightarrow> string set \<Rightarrow> Listener list \<times> Listener list" where
  "removeListeners_loop [] docTypeName keepNames = ([], [])"
| "removeListeners_loop (listener # rest) docTypeName keepNames =
     (let (kept, deferredDelete) = removeListeners_loop rest docTypeName keepNames
      in if shouldRemoveListener listener docTypeName keepNames
         then (kept, listener # deferredDelete)
         else (listener # kept, deferredDelete))"

definition removeListeners ::
  "Handler \<Rightarrow> string \<Rightarrow> string set \<Rightarrow> (delivery list \<times> Handler) option" where
  "removeListeners h docTypeName keepNames =
     (if \<not> closed h then
        Some ([], h\<lparr>listeners := fst (removeListeners_loop (listeners h) docTypeName keepNames)\<rparr>)
      else if listeners h = [] then Some ([], h) else None)"

subsection \<open>Sequences of calls\<close>

datatype op =
    PutDone GlobalId lid SerialNum
  | Remove GlobalId SerialNum
  | RemoveDone GlobalId SerialNum
  | AddListener Listener
  | RemoveListeners string "string set"
  | Close

fun step :: "Handler \<Rightarrow> op \<Rightarrow> (delivery list \<times> Handler) option" where
  "step h (PutDone gid l serialNum) = notifyPutDone h gid l serialNum"
| "step h (Remove gid serialNum) = notifyRemove h gid serialNum"
| "step h (RemoveDone gid serialNum) = notifyRemoveDone h gid serialNum"
| "step h (AddListener listener) = addListener h listener"
| "step h (RemoveListeners docTypeName keepNames) = removeListeners h docTypeName keepNames"
| "step h Close = close h"

text \<open>
  Running a sequence of calls stops at the first failed assertion. The log pairs every
  call with the callbacks it made.
\<close>

fun run :: "Handler \<Rightarrow> op list \<Rightarrow> ((op \<times> delivery list) list \<times> Handler) option" where
  "run h [] = Some ([], h)"
| "run h (c # cs) =
     (case step h c of
        None \<Rightarrow> None
      | Some (ds, h') \<Rightarrow>
          (case run h' cs of
             None \<Rightarrow> None
           | Some (log, h'') \<Rightarrow> Some ((c, ds) # log, h'')))"

subsection \<open>Notions used in the properties\<close>

text \<open>The pair of document type name and name that identifies a listener.\<close>

definition identity :: "Listener \<Rightarrow> string \<times> string" where
  "identity listener = (getDocTypeName listener, getName listener)"

text \<open>The calls of a sequence that register a remove for a gid, and that complete one.\<close>

fun isRemoveOf :: "GlobalId \<Rightarrow> op \<Rightarrow> bool" where
  "isRemoveOf g (Remove gid serialNum) = (gid = g)"
| "isRemoveOf g c = False"

fun isRemoveDoneOf :: "GlobalId \<Rightarrow> op \<Rightarrow> bool" where
  "isRemoveDoneOf g (RemoveDone gid serialNum) = (gid = g)"
| "isRemoveDoneOf g c = False"

definition removeCalls :: "GlobalId \<Rightarrow> op list \<Rightarrow> nat" where
  "removeCalls g cs = length (filter (isRemoveOf g) cs)"

definition removeDoneCalls :: "GlobalId \<Rightarrow> op list \<Rightarrow> nat" where
  "removeDoneCalls g cs = length (filter (isRemoveDoneOf g) cs)"

text \<open>The reference count the handler holds for a gid: none without an entry.\<close>

definition pendingCount :: "Handler \<Rightarrow> GlobalId \<Rightarrow> nat" where
  "pendingCount h g = (case pendingRemove h g of None \<Rightarrow> 0 | Some entry \<Rightarrow> refCount entry)"

definition refCountsPositive :: "Handler \<Rightarrow> bool" where
  "refCountsPositive h = (\<forall>g entry. pendingRemove h g = Some entry \<longrightarrow> 1 \<le> refCount entry)"

text \<open>
  Invariant I3 at one gid, calls whose serial number is a valid one, and calls that
  register a remove only under a valid serial number.
\<close>

definition serialsDifferAt :: "Handler \<Rightarrow> GlobalId \<Rightarrow> bool" where
  "serialsDifferAt h g =
     (case pendingRemove h g of
        None \<Rightarrow> True
      | Some entry \<Rightarrow> putSerialNum entry \<noteq> removeSerialNum entry)"

fun validOp :: "op \<Rightarrow> bool" where
  "validOp (PutDone gid l serialNum) = validSerialNum serialNum"
| "validOp (Remove gid serialNum) = validSerialNum serialNum"
| "validOp (RemoveDone gid serialNum) = validSerialNum serialNum"
| "validOp c = True"

fun validRemove :: "op \<Rightarrow> bool" where
  "validRemove (Remove gid serialNum) = validSerialNum serialNum"
| "validRemove c = True"

text \<open>
  The gid a callback is about, and the serial numbers of the calls of a log that
  delivered a notification about a gid to some listener, in the order of the calls.
  Only a put or a remove notifies, so only they carry a serial number here.
\<close>

fun callbackGid :: "callback \<Rightarrow> GlobalId option" where
  "callbackGid (CbPutDone gid l) = Some gid"
| "callbackGid (CbRemove gid) = Some gid"
| "callbackGid CbRegistered = None"

definition deliveredAbout :: "GlobalId \<Rightarrow> delivery list \<Rightarrow> bool" where
  "deliveredAbout g ds = list_ex (\<lambda>d. callbackGid (snd d) = Some g) ds"

fun writeOf :: "op \<Rightarrow> (GlobalId \<times> SerialNum) option" where
  "writeOf (PutDone gid l serialNum) = Some (gid, serialNum)"
| "writeOf (Remove gid serialNum) = Some (gid, serialNum)"
| "writeOf c = None"

definition deliveredSerial :: "GlobalId \<Rightarrow> op \<Rightarrow> delivery list \<Rightarrow> SerialNum list" where
  "deliveredSerial g c ds =
     (case writeOf c of
        Some (gid, serialNum) \<Rightarrow> if deliveredAbout g ds then [serialNum] else []
      | None \<Rightarrow> [])"

fun deliveredSerials :: "GlobalId \<Rightarrow> (op \<times> delivery list) list \<Rightarrow> SerialNum list" where
  "deliveredSerials g [] = []"
| "deliveredSerials g ((c, ds) # log) = deliveredSerial g c ds @ deliveredSerials g log"

text \<open>
  The caller contract of the upstream pipeline, on a sequence of calls. Serial numbers
  are assigned once per write, in increasing order, while the calls of different writes
  reach the handler in any order: on the calls this shows as pairwise distinct serial
  numbers of the put and remove calls. Every remove is followed by exactly one
  \<open>notifyRemoveDone\<close> with its gid and serial number and preceded by none. A put and a
  remove of one gid never share a serial number.
\<close>

fun writeSerials :: "op list \<Rightarrow> SerialNum list" where
  "writeSerials [] = []"
| "writeSerials (c # cs) =
     (case writeOf c of
        Some (gid, serialNum) \<Rightarrow> serialNum # writeSerials cs
      | None \<Rightarrow> writeSerials cs)"

fun removePairedAt :: "op list \<Rightarrow> nat \<times> op \<Rightarrow> bool" where
  "removePairedAt cs (i, Remove gid serialNum) =
     (count_list cs (RemoveDone gid serialNum) = 1 \<and>
      count_list (take i cs) (RemoveDone gid serialNum) = 0)"
| "removePairedAt cs (i, c) = True"

fun noSharedSerialAt :: "op list \<Rightarrow> op \<Rightarrow> bool" where
  "noSharedSerialAt cs (PutDone gid l serialNum) = (Remove gid serialNum \<notin> set cs)"
| "noSharedSerialAt cs c = True"

definition callerContract :: "op list \<Rightarrow> bool" where
  "callerContract cs =
     (distinct (writeSerials cs) \<and>
      list_all (removePairedAt cs) (enumerate 0 cs) \<and>
      list_all (noSharedSerialAt cs) cs)"

text \<open>
  A condition on the calls that arrive for a gid while the handler holds no entry for
  it: each put or remove among them carries a serial number above those of all calls
  that have delivered a notification about the gid so far (\<open>seen\<close>).
\<close>

definition absentCallOrdered :: "GlobalId \<Rightarrow> Handler \<Rightarrow> SerialNum list \<Rightarrow> op \<Rightarrow> bool" where
  "absentCallOrdered g h seen c =
     (case writeOf c of
        Some (gid, serialNum) \<Rightarrow>
          gid = g \<and> pendingRemove h g = None \<longrightarrow> list_all (\<lambda>x. x < serialNum) seen
      | None \<Rightarrow> True)"

fun absentCallsOrdered :: "GlobalId \<Rightarrow> Handler \<Rightarrow> SerialNum list \<Rightarrow> op list \<Rightarrow> bool" where
  "absentCallsOrdered g h seen [] = True"
| "absentCallsOrdered g h seen (c # cs) =
     (absentCallOrdered g h seen c \<and>
      (case step h c of
         None \<Rightarrow> True
       | Some (ds, h') \<Rightarrow> absentCallsOrdered g h' (seen @ deliveredSerial g c ds) cs))"

text \<open>
  What the entry of a gid records about the notifications delivered so far: their
  serial numbers increase, and none lies above both serial numbers of the entry.
\<close>

definition orderInvariant :: "GlobalId \<Rightarrow> Handler \<Rightarrow> SerialNum list \<Rightarrow> bool" where
  "orderInvariant g h seen =
     (sorted_wrt (<) seen \<and>
      (case pendingRemove h g of
         None \<Rightarrow> True
       | Some entry \<Rightarrow>
           list_all (\<lambda>x. x \<le> max (removeSerialNum entry) (putSerialNum entry)) seen))"

text \<open>
  The registry invariants I4 and I5: no two listeners share an identity, and a closed
  handler has no listeners.
\<close>

definition registryInvariant :: "Handler \<Rightarrow> bool" where
  "registryInvariant h =
     (distinct (map identity (listeners h)) \<and> (closed h \<longrightarrow> listeners h = []))"

text \<open>The number of \<open>notifyRegistered\<close> callbacks in a log.\<close>

definition registeredCalls :: "(op \<times> delivery list) list \<Rightarrow> nat" where
  "registeredCalls log =
     length (filter (\<lambda>d. snd d = CbRegistered) (concat (map snd log)))"

subsection \<open>Example handlers\<close>

definition listenerA :: Listener where
  "listenerA = \<lparr>listenerId = 1, getDocTypeName = ''music'', getName = ''artist''\<rparr>"

definition listenerB :: Listener where
  "listenerB = \<lparr>listenerId = 2, getDocTypeName = ''music'', getName = ''album''\<rparr>"

definition listenerC :: Listener where
  "listenerC = \<lparr>listenerId = 3, getDocTypeName = ''book'', getName = ''artist''\<rparr>"

definition listenerA2 :: Listener where
  "listenerA2 = \<lparr>listenerId = 4, getDocTypeName = ''music'', getName = ''artist''\<rparr>"

definition listenerA3 :: Listener where
  "listenerA3 = \<lparr>listenerId = 5, getDocTypeName = ''music'', getName = ''artist''\<rparr>"

definition pendingHandler :: "SerialNum \<Rightarrow> SerialNum \<Rightarrow> nat \<Rightarrow> Handler" where
  "pendingHandler r p n =
     \<lparr>listeners = [listenerA, listenerB], closed = False,
      pendingRemove = [7 \<mapsto> \<lparr>removeSerialNum = r, putSerialNum = p, refCount = n\<rparr>]\<rparr>"

definition listeningHandler :: "Listener list \<Rightarrow> Handler" where
  "listeningHandler ls = \<lparr>listeners = ls, closed = False, pendingRemove = Map.empty\<rparr>"

section \<open>Properties\<close>

subsection \<open>The fan-out loops\<close>

lemma notifyPutDone_listeners_map:
  "notifyPutDone_listeners ls gid l = map (\<lambda>listener. (listener, CbPutDone gid l)) ls"
  by (induction ls) simp_all

lemma notifyRemove_listeners_map:
  "notifyRemove_listeners ls gid = map (\<lambda>listener. (listener, CbRemove gid)) ls"
  by (induction ls) simp_all

subsection \<open>notifyPutDone\<close>

text \<open>
  C1. \<open>notifyPutDone(gid, lid, serial)\<close>: without a pending-remove entry for the gid the
  put is notified to every registered listener, once each and in registry order, and
  the state stays as it is. With an entry: a \<open>removeSerialNum\<close> above the serial number
  suppresses the call; an equal one, or a smaller one with a \<open>putSerialNum\<close> that is not
  below the serial number, fails the assertion; otherwise \<open>putSerialNum\<close> becomes the
  serial number and the put is notified to every listener.
\<close>

theorem notifyPutDone_cases:
  "(pendingRemove h gid = None \<longrightarrow>
      notifyPutDone h gid l serialNum =
        Some (map (\<lambda>listener. (listener, CbPutDone gid l)) (listeners h), h)) \<and>
   (\<forall>entry. pendingRemove h gid = Some entry \<longrightarrow>
      (removeSerialNum entry > serialNum \<longrightarrow> notifyPutDone h gid l serialNum = Some ([], h)) \<and>
      (removeSerialNum entry = serialNum \<or>
       (removeSerialNum entry < serialNum \<and> \<not> putSerialNum entry < serialNum) \<longrightarrow>
         notifyPutDone h gid l serialNum = None) \<and>
      (removeSerialNum entry < serialNum \<and> putSerialNum entry < serialNum \<longrightarrow>
         notifyPutDone h gid l serialNum =
           Some (map (\<lambda>listener. (listener, CbPutDone gid l)) (listeners h),
                 h\<lparr>pendingRemove :=
                     (pendingRemove h)(gid \<mapsto> entry\<lparr>putSerialNum := serialNum\<rparr>)\<rparr>)))"
  by (auto simp: notifyPutDone_def notifyPutDone_listeners_map)

theorem notifyPutDone_cases_witness:
  "notifyPutDone newHandler 7 3 5 = Some ([], newHandler) \<and>
   notifyPutDone (pendingHandler 10 0 1) 8 3 5 =
     Some ([(listenerA, CbPutDone 8 3), (listenerB, CbPutDone 8 3)], pendingHandler 10 0 1) \<and>
   notifyPutDone (pendingHandler 10 0 1) 7 3 5 = Some ([], pendingHandler 10 0 1) \<and>
   notifyPutDone (pendingHandler 10 0 1) 7 3 10 = None \<and>
   notifyPutDone (pendingHandler 10 20 1) 7 3 15 = None \<and>
   notifyPutDone (pendingHandler 10 0 1) 7 3 15 =
     Some ([(listenerA, CbPutDone 7 3), (listenerB, CbPutDone 7 3)], pendingHandler 10 15 1)"
  using notifyPutDone_cases [of newHandler 7 3 5]
    notifyPutDone_cases [of "pendingHandler 10 0 1" 8 3 5]
    notifyPutDone_cases [of "pendingHandler 10 0 1" 7 3 5]
    notifyPutDone_cases [of "pendingHandler 10 0 1" 7 3 10]
    notifyPutDone_cases [of "pendingHandler 10 20 1" 7 3 15]
    notifyPutDone_cases [of "pendingHandler 10 0 1" 7 3 15]
  by (simp add: newHandler_def pendingHandler_def)

text \<open>
  C10. On the suppressed path of \<open>notifyPutDone\<close>, an entry for the gid whose
  \<open>removeSerialNum\<close> is above the serial number, the call returns the state it was given
  (the same entries with the same fields, the same registry, the same flag) and makes
  no callback.
\<close>

theorem notifyPutDone_suppressed_frame:
  "pendingRemove h gid = Some entry \<Longrightarrow> removeSerialNum entry > serialNum \<Longrightarrow>
   notifyPutDone h gid l serialNum = Some ([], h)"
  by (simp add: notifyPutDone_def)

theorem notifyPutDone_suppressed_frame_witness:
  "pendingRemove (pendingHandler 101 0 1) 7 =
     Some \<lparr>removeSerialNum = 101, putSerialNum = 0, refCount = 1\<rparr> \<and>
   removeSerialNum \<lparr>removeSerialNum = 101, putSerialNum = 0, refCount = 1\<rparr> > (99::nat) \<and>
   notifyPutDone (pendingHandler 101 0 1) 7 8 99 = Some ([], pendingHandler 101 0 1)"
  using notifyPutDone_suppressed_frame [of "pendingHandler 101 0 1" 7
      "\<lparr>removeSerialNum = 101, putSerialNum = 0, refCount = 1\<rparr>" 99 8]
  by (simp add: pendingHandler_def)

subsection \<open>notifyRemove\<close>

text \<open>
  C2. \<open>notifyRemove(gid, serial)\<close>: without an entry for the gid it stores one with
  \<open>removeSerialNum = serial\<close>, \<open>refCount = 1\<close> and the unset \<open>putSerialNum\<close>, which lies
  below every valid serial number, and notifies the remove to every listener. With an
  entry it fails unless the serial number is above both \<open>removeSerialNum\<close> and
  \<open>putSerialNum\<close>; it notifies the remove to every listener exactly when
  \<open>removeSerialNum < putSerialNum\<close> held, and leaves the entry with
  \<open>removeSerialNum = serial\<close> and \<open>refCount\<close> one higher.
\<close>

theorem notifyRemove_cases:
  "(pendingRemove h gid = None \<longrightarrow>
      notifyRemove h gid serialNum =
        Some (map (\<lambda>listener. (listener, CbRemove gid)) (listeners h),
              h\<lparr>pendingRemove :=
                  (pendingRemove h)(gid \<mapsto>
                     \<lparr>removeSerialNum = serialNum, putSerialNum = unsetSerialNum,
                      refCount = 1\<rparr>)\<rparr>)) \<and>
   (\<forall>s. validSerialNum s \<longrightarrow> unsetSerialNum < s) \<and>
   (\<forall>entry. pendingRemove h gid = Some entry \<longrightarrow>
      (notifyRemove h gid serialNum = None \<longleftrightarrow>
         \<not> (removeSerialNum entry < serialNum \<and> putSerialNum entry < serialNum)) \<and>
      (removeSerialNum entry < serialNum \<and> putSerialNum entry < serialNum \<longrightarrow>
         notifyRemove h gid serialNum =
           Some ((if removeSerialNum entry < putSerialNum entry
                  then map (\<lambda>listener. (listener, CbRemove gid)) (listeners h) else []),
                 h\<lparr>pendingRemove :=
                     (pendingRemove h)(gid \<mapsto>
                        entry\<lparr>removeSerialNum := serialNum,
                              refCount := refCount entry + 1\<rparr>)\<rparr>)))"
  by (auto simp: notifyRemove_def notifyRemove_listeners_map newPendingRemoveEntry_def
      validSerialNum_def)

theorem notifyRemove_cases_witness:
  "notifyRemove (pendingHandler 10 0 1) 8 5 =
     Some ([(listenerA, CbRemove 8), (listenerB, CbRemove 8)],
           (pendingHandler 10 0 1)\<lparr>pendingRemove :=
              (pendingRemove (pendingHandler 10 0 1))(8 \<mapsto>
                 \<lparr>removeSerialNum = 5, putSerialNum = unsetSerialNum, refCount = 1\<rparr>)\<rparr>) \<and>
   notifyRemove (pendingHandler 10 0 1) 7 10 = None \<and>
   notifyRemove (pendingHandler 10 20 1) 7 20 = None \<and>
   notifyRemove (pendingHandler 10 0 2) 7 15 = Some ([], pendingHandler 15 0 3) \<and>
   notifyRemove (pendingHandler 10 12 2) 7 15 =
     Some ([(listenerA, CbRemove 7), (listenerB, CbRemove 7)], pendingHandler 15 12 3)"
  using notifyRemove_cases [of "pendingHandler 10 0 1" 8 5]
    notifyRemove_cases [of "pendingHandler 10 0 1" 7 10]
    notifyRemove_cases [of "pendingHandler 10 20 1" 7 20]
    notifyRemove_cases [of "pendingHandler 10 0 2" 7 15]
    notifyRemove_cases [of "pendingHandler 10 12 2" 7 15]
  by (simp add: pendingHandler_def)

subsection \<open>Reference counts\<close>

lemma refCountsPositiveD:
  "refCountsPositive h \<Longrightarrow> pendingRemove h g = Some entry \<Longrightarrow> 1 \<le> refCount entry"
  by (simp add: refCountsPositive_def)

lemma step_refCountsPositive:
  assumes pos: "refCountsPositive h" and s: "step h c = Some (ds, h')"
  shows "refCountsPositive h'"
proof (cases c)
  case (RemoveDone gid serialNum)
  with s obtain entry where e: "pendingRemove h gid = Some entry"
    by (auto simp: notifyRemoveDone_def split: option.splits)
  from refCountsPositiveD [OF pos e] have one: "1 \<le> refCount entry" .
  show ?thesis
  proof (cases "refCount entry = 1")
    case True
    with s e RemoveDone pos show ?thesis
      by (auto simp: refCountsPositive_def notifyRemoveDone_def split: if_splits)
  next
    case False
    with one have two: "1 \<le> refCount entry - 1" by simp
    from s e RemoveDone False
    have h': "h' = h\<lparr>pendingRemove :=
                (pendingRemove h)(gid \<mapsto> entry\<lparr>refCount := refCount entry - 1\<rparr>)\<rparr>"
      by (auto simp: notifyRemoveDone_def split: if_splits)
    show ?thesis
      unfolding refCountsPositive_def
    proof (intro allI impI)
      fix g entry'
      assume a: "pendingRemove h' g = Some entry'"
      show "1 \<le> refCount entry'"
      proof (cases "g = gid")
        case True
        with a h' two show ?thesis by auto
      next
        case False
        with a h' have "pendingRemove h g = Some entry'" by simp
        from refCountsPositiveD [OF pos this] show ?thesis .
      qed
    qed
  qed
qed (use assms in \<open>auto simp: refCountsPositive_def notifyPutDone_def notifyRemove_def
        addListener_def removeListeners_def close_def newPendingRemoveEntry_def
        split: option.splits if_splits\<close>)

lemma step_pendingCount:
  assumes pos: "refCountsPositive h" and s: "step h c = Some (ds, h')"
  shows "pendingCount h' g + (if isRemoveDoneOf g c then 1 else 0) =
         pendingCount h g + (if isRemoveOf g c then 1 else 0)"
proof (cases c)
  case (RemoveDone gid serialNum)
  with s obtain entry where e: "pendingRemove h gid = Some entry"
    by (auto simp: notifyRemoveDone_def split: option.splits)
  from refCountsPositiveD [OF pos e] have "1 \<le> refCount entry" .
  with s e RemoveDone show ?thesis
    by (auto simp: pendingCount_def notifyRemoveDone_def split: if_splits)
qed (use assms in \<open>auto simp: pendingCount_def notifyPutDone_def notifyRemove_def
        addListener_def removeListeners_def close_def newPendingRemoveEntry_def
        split: option.splits if_splits\<close>)

lemma run_refCountsPositive:
  "refCountsPositive h \<Longrightarrow> run h cs = Some (log, h') \<Longrightarrow> refCountsPositive h'"
proof (induction cs arbitrary: h log)
  case Nil
  then show ?case by simp
next
  case (Cons c cs)
  from Cons.prems(2) obtain ds h1 log1 where
    s: "step h c = Some (ds, h1)" and r: "run h1 cs = Some (log1, h')"
    by (auto split: option.splits)
  from step_refCountsPositive [OF Cons.prems(1) s] have "refCountsPositive h1" .
  from Cons.IH [OF this r] show ?case .
qed

lemma run_pendingCount:
  "refCountsPositive h \<Longrightarrow> run h cs = Some (log, h') \<Longrightarrow>
   pendingCount h' g + removeDoneCalls g cs = pendingCount h g + removeCalls g cs"
proof (induction cs arbitrary: h log)
  case Nil
  then show ?case by (simp add: removeDoneCalls_def removeCalls_def)
next
  case (Cons c cs)
  from Cons.prems(2) obtain ds h1 log1 where
    s: "step h c = Some (ds, h1)" and r: "run h1 cs = Some (log1, h')"
    by (auto split: option.splits)
  have p1: "refCountsPositive h1"
    by (rule step_refCountsPositive [OF Cons.prems(1) s])
  have a: "pendingCount h' g + removeDoneCalls g cs = pendingCount h1 g + removeCalls g cs"
    by (rule Cons.IH [OF p1 r])
  have b: "pendingCount h1 g + (if isRemoveDoneOf g c then 1 else 0) =
           pendingCount h g + (if isRemoveOf g c then 1 else 0)"
    by (rule step_pendingCount [OF Cons.prems(1) s])
  from a b show ?case
    by (simp add: removeDoneCalls_def removeCalls_def split: if_splits)
qed

lemma newHandler_refCountsPositive: "refCountsPositive newHandler"
  by (simp add: refCountsPositive_def newHandler_def)

text \<open>
  C6. After any sequence of calls that ran from a new handler without a failed
  assertion, a gid has a pending-remove entry exactly when the sequence holds more
  \<open>notifyRemove\<close> calls than \<open>notifyRemoveDone\<close> calls for it, and the \<open>refCount\<close> of an
  entry is at least one and is the difference of the two numbers.
\<close>

theorem entry_iff_outstanding_removes:
  assumes "run newHandler cs = Some (log, h)"
  shows "(pendingRemove h g \<noteq> None \<longleftrightarrow> removeDoneCalls g cs < removeCalls g cs) \<and>
         (\<forall>entry. pendingRemove h g = Some entry \<longrightarrow>
            1 \<le> refCount entry \<and> refCount entry + removeDoneCalls g cs = removeCalls g cs)"
proof -
  have pos: "refCountsPositive h"
    by (rule run_refCountsPositive [OF newHandler_refCountsPositive assms])
  have "pendingCount h g + removeDoneCalls g cs = pendingCount newHandler g + removeCalls g cs"
    by (rule run_pendingCount [OF newHandler_refCountsPositive assms])
  then have eq: "pendingCount h g + removeDoneCalls g cs = removeCalls g cs"
    by (simp add: pendingCount_def newHandler_def)
  show ?thesis
  proof (cases "pendingRemove h g")
    case None
    with eq show ?thesis by (simp add: pendingCount_def)
  next
    case (Some entry)
    with pos have "1 \<le> refCount entry" by (simp add: refCountsPositive_def)
    with Some eq show ?thesis by (simp add: pendingCount_def)
  qed
qed

theorem entry_iff_outstanding_removes_witness:
  "run newHandler [Remove 7 5, Remove 7 6, RemoveDone 7 5, Remove 8 9, RemoveDone 8 9] =
     Some ([(Remove 7 5, []), (Remove 7 6, []), (RemoveDone 7 5, []), (Remove 8 9, []),
            (RemoveDone 8 9, [])],
           newHandler\<lparr>pendingRemove :=
             [7 \<mapsto> \<lparr>removeSerialNum = 6, putSerialNum = 0, refCount = 1\<rparr>]\<rparr>) \<and>
   removeDoneCalls 7 [Remove 7 5, Remove 7 6, RemoveDone 7 5, Remove 8 9, RemoveDone 8 9]
     < removeCalls 7 [Remove 7 5, Remove 7 6, RemoveDone 7 5, Remove 8 9, RemoveDone 8 9] \<and>
   \<not> removeDoneCalls 8 [Remove 7 5, Remove 7 6, RemoveDone 7 5, Remove 8 9, RemoveDone 8 9]
     < removeCalls 8 [Remove 7 5, Remove 7 6, RemoveDone 7 5, Remove 8 9, RemoveDone 8 9] \<and>
   1 + removeDoneCalls 7 [Remove 7 5, Remove 7 6, RemoveDone 7 5, Remove 8 9, RemoveDone 8 9]
     = removeCalls 7 [Remove 7 5, Remove 7 6, RemoveDone 7 5, Remove 8 9, RemoveDone 8 9]"
proof -
  have r: "run newHandler [Remove 7 5, Remove 7 6, RemoveDone 7 5, Remove 8 9, RemoveDone 8 9] =
     Some ([(Remove 7 5, []), (Remove 7 6, []), (RemoveDone 7 5, []), (Remove 8 9, []),
            (RemoveDone 8 9, [])],
           newHandler\<lparr>pendingRemove :=
             [7 \<mapsto> \<lparr>removeSerialNum = 6, putSerialNum = 0, refCount = 1\<rparr>]\<rparr>)"
    by (simp add: newHandler_def notifyRemove_def notifyRemoveDone_def
        newPendingRemoveEntry_def unsetSerialNum_def fun_upd_twist)
  from r entry_iff_outstanding_removes [OF r, of 7] entry_iff_outstanding_removes [OF r, of 8]
  show ?thesis by simp
qed

subsection \<open>notifyRemoveDone\<close>

text \<open>
  C3. In a state reached from a new handler, \<open>notifyRemoveDone(gid, serial)\<close> fails
  exactly when the gid has no entry or the entry's \<open>removeSerialNum\<close> is below the serial
  number. Otherwise it makes no callback and touches nothing but the entry of the gid:
  the \<open>refCount\<close>, which is at least one, goes down by one, and the entry is erased exactly
  when that leaves zero; after the erase every \<open>notifyRemoveDone\<close> for the gid fails.
\<close>

theorem notifyRemoveDone_cases:
  assumes "run newHandler cs = Some (log, h)"
  shows "(notifyRemoveDone h gid serialNum = None \<longleftrightarrow>
            pendingRemove h gid = None \<or>
            (\<exists>entry. pendingRemove h gid = Some entry \<and> removeSerialNum entry < serialNum)) \<and>
         (\<forall>entry. pendingRemove h gid = Some entry \<and> serialNum \<le> removeSerialNum entry \<longrightarrow>
            1 \<le> refCount entry \<and>
            (\<exists>h'. notifyRemoveDone h gid serialNum = Some ([], h') \<and>
               listeners h' = listeners h \<and> closed h' = closed h \<and>
               (\<forall>g. g \<noteq> gid \<longrightarrow> pendingRemove h' g = pendingRemove h g) \<and>
               (refCount entry - 1 = 0 \<longrightarrow>
                  pendingRemove h' gid = None \<and>
                  (\<forall>s. notifyRemoveDone h' gid s = None)) \<and>
               (refCount entry - 1 \<noteq> 0 \<longrightarrow>
                  pendingRemove h' gid = Some (entry\<lparr>refCount := refCount entry - 1\<rparr>))))"
proof -
  have pos: "refCountsPositive h"
    by (rule run_refCountsPositive [OF newHandler_refCountsPositive assms])
  have fatal: "notifyRemoveDone h gid serialNum = None \<longleftrightarrow>
            pendingRemove h gid = None \<or>
            (\<exists>entry. pendingRemove h gid = Some entry \<and> removeSerialNum entry < serialNum)"
    by (auto simp: notifyRemoveDone_def split: option.splits)
  have ok: "1 \<le> refCount entry \<and>
            (\<exists>h'. notifyRemoveDone h gid serialNum = Some ([], h') \<and>
               listeners h' = listeners h \<and> closed h' = closed h \<and>
               (\<forall>g. g \<noteq> gid \<longrightarrow> pendingRemove h' g = pendingRemove h g) \<and>
               (refCount entry - 1 = 0 \<longrightarrow>
                  pendingRemove h' gid = None \<and>
                  (\<forall>s. notifyRemoveDone h' gid s = None)) \<and>
               (refCount entry - 1 \<noteq> 0 \<longrightarrow>
                  pendingRemove h' gid = Some (entry\<lparr>refCount := refCount entry - 1\<rparr>)))"
    if e: "pendingRemove h gid = Some entry" and le: "serialNum \<le> removeSerialNum entry"
    for entry
  proof -
    from pos e have one: "1 \<le> refCount entry" by (simp add: refCountsPositive_def)
    show ?thesis
    proof (cases "refCount entry = 1")
      case True
      with e le one show ?thesis by (simp add: notifyRemoveDone_def)
    next
      case False
      with e le one show ?thesis by (simp add: notifyRemoveDone_def)
    qed
  qed
  from fatal ok show ?thesis by blast
qed

theorem notifyRemoveDone_cases_witness:
  "run newHandler [Remove 7 101] =
     Some ([(Remove 7 101, [])],
           newHandler\<lparr>pendingRemove :=
             [7 \<mapsto> \<lparr>removeSerialNum = 101, putSerialNum = 0, refCount = 1\<rparr>]\<rparr>) \<and>
   notifyRemoveDone
     (newHandler\<lparr>pendingRemove :=
        [7 \<mapsto> \<lparr>removeSerialNum = 101, putSerialNum = 0, refCount = 1\<rparr>]\<rparr>) 7 102 = None \<and>
   notifyRemoveDone
     (newHandler\<lparr>pendingRemove :=
        [7 \<mapsto> \<lparr>removeSerialNum = 101, putSerialNum = 0, refCount = 1\<rparr>]\<rparr>) 7 101 =
     Some ([], newHandler) \<and>
   notifyRemoveDone newHandler 7 101 = None"
proof -
  have r: "run newHandler [Remove 7 101] =
     Some ([(Remove 7 101, [])],
           newHandler\<lparr>pendingRemove :=
             [7 \<mapsto> \<lparr>removeSerialNum = 101, putSerialNum = 0, refCount = 1\<rparr>]\<rparr>)"
    by (simp add: newHandler_def notifyRemove_def newPendingRemoveEntry_def unsetSerialNum_def)
  have r0: "run newHandler [] = Some ([], newHandler)" by simp
  from r notifyRemoveDone_cases [OF r, of 7 102] notifyRemoveDone_cases [OF r, of 7 101]
    notifyRemoveDone_cases [OF r0, of 7 101]
  show ?thesis by (simp add: newHandler_def notifyRemoveDone_def)
qed

subsection \<open>Put and remove serial numbers of an entry\<close>

lemma step_serialsDifferAt:
  "serialsDifferAt h g \<Longrightarrow> validRemove c \<Longrightarrow> step h c = Some (ds, h') \<Longrightarrow>
   serialsDifferAt h' g"
  by (cases c)
     (auto simp: serialsDifferAt_def notifyPutDone_def notifyRemove_def notifyRemoveDone_def
        addListener_def removeListeners_def close_def newPendingRemoveEntry_def
        validSerialNum_def
        split: option.splits if_splits)

lemma run_serialsDifferAt:
  "serialsDifferAt h g \<Longrightarrow> list_all validRemove cs \<Longrightarrow> run h cs = Some (log, h') \<Longrightarrow>
   serialsDifferAt h' g"
proof (induction cs arbitrary: h log)
  case Nil
  then show ?case by simp
next
  case (Cons c cs)
  from Cons.prems(3) obtain ds h1 log1 where
    s: "step h c = Some (ds, h1)" and r: "run h1 cs = Some (log1, h')"
    by (auto split: option.splits)
  from Cons.prems(2) have v: "validRemove c" and vs: "list_all validRemove cs" by simp_all
  from step_serialsDifferAt [OF Cons.prems(1) v s] have "serialsDifferAt h1 g" .
  from Cons.IH [OF this vs r] show ?case .
qed

text \<open>
  C5, as the code has it. Invariant I3 holds of a new handler and is preserved by every
  call that does not fail an assertion, provided a \<open>notifyRemove\<close> carries a valid serial
  number, one above the unset value a fresh entry's \<open>putSerialNum\<close> starts with; the
  serial numbers of the other calls are free. So in every state reached from a new
  handler by calls whose removes carry valid serial numbers, every pending-remove
  entry has a \<open>putSerialNum\<close> different from its \<open>removeSerialNum\<close>.
\<close>

theorem put_remove_serials_differ:
  "serialsDifferAt newHandler g \<and>
   (serialsDifferAt h g \<and> validRemove c \<and> step h c = Some (ds, h') \<longrightarrow>
      serialsDifferAt h' g) \<and>
   (list_all validRemove cs \<and> run newHandler cs = Some (log, hn) \<longrightarrow>
      (\<forall>entry. pendingRemove hn g = Some entry \<longrightarrow>
         putSerialNum entry \<noteq> removeSerialNum entry))"
proof -
  have new: "serialsDifferAt newHandler g"
    by (simp add: serialsDifferAt_def newHandler_def)
  have reach: "\<forall>entry. pendingRemove hn g = Some entry \<longrightarrow>
         putSerialNum entry \<noteq> removeSerialNum entry"
    if "list_all validRemove cs" and "run newHandler cs = Some (log, hn)"
    using run_serialsDifferAt [OF new that] by (auto simp: serialsDifferAt_def)
  from new reach step_serialsDifferAt show ?thesis by blast
qed

theorem put_remove_serials_differ_witness:
  "serialsDifferAt newHandler 7 \<and>
   serialsDifferAt (pendingHandler 10 0 1) 7 \<and> validRemove (PutDone 7 3 15) \<and>
   step (pendingHandler 10 0 1) (PutDone 7 3 15) =
     Some ([(listenerA, CbPutDone 7 3), (listenerB, CbPutDone 7 3)], pendingHandler 10 15 1) \<and>
   serialsDifferAt (pendingHandler 10 15 1) 7 \<and>
   list_all validRemove [PutDone 7 3 0, Remove 7 101, PutDone 7 3 102, Remove 7 103] \<and>
   run newHandler [PutDone 7 3 0, Remove 7 101, PutDone 7 3 102, Remove 7 103] =
     Some ([(PutDone 7 3 0, []), (Remove 7 101, []), (PutDone 7 3 102, []),
            (Remove 7 103, [])],
           newHandler\<lparr>pendingRemove :=
             [7 \<mapsto> \<lparr>removeSerialNum = 103, putSerialNum = 102, refCount = 2\<rparr>]\<rparr>) \<and>
   putSerialNum \<lparr>removeSerialNum = 103, putSerialNum = 102, refCount = 2\<rparr> \<noteq>
     removeSerialNum \<lparr>removeSerialNum = 103, putSerialNum = 102, refCount = 2\<rparr>"
proof -
  have s: "step (pendingHandler 10 0 1) (PutDone 7 3 15) =
     Some ([(listenerA, CbPutDone 7 3), (listenerB, CbPutDone 7 3)], pendingHandler 10 15 1)"
    by (simp add: pendingHandler_def notifyPutDone_def)
  have r: "run newHandler [PutDone 7 3 0, Remove 7 101, PutDone 7 3 102, Remove 7 103] =
     Some ([(PutDone 7 3 0, []), (Remove 7 101, []), (PutDone 7 3 102, []),
            (Remove 7 103, [])],
           newHandler\<lparr>pendingRemove :=
             [7 \<mapsto> \<lparr>removeSerialNum = 103, putSerialNum = 102, refCount = 2\<rparr>]\<rparr>)"
    by (simp add: newHandler_def notifyRemove_def notifyPutDone_def
        newPendingRemoveEntry_def unsetSerialNum_def numeral_2_eq_2)
  have d: "serialsDifferAt (pendingHandler 10 0 1) 7"
    by (simp add: serialsDifferAt_def pendingHandler_def)
  from s r d
    put_remove_serials_differ [of 7 "pendingHandler 10 0 1" "PutDone 7 3 15"
      "[(listenerA, CbPutDone 7 3), (listenerB, CbPutDone 7 3)]" "pendingHandler 10 15 1"
      "[PutDone 7 3 0, Remove 7 101, PutDone 7 3 102, Remove 7 103]"
      "[(PutDone 7 3 0, []), (Remove 7 101, []), (PutDone 7 3 102, []), (Remove 7 103, [])]"
      "newHandler\<lparr>pendingRemove :=
             [7 \<mapsto> \<lparr>removeSerialNum = 103, putSerialNum = 102, refCount = 2\<rparr>]\<rparr>"]
  show ?thesis by (simp add: validSerialNum_def unsetSerialNum_def)
qed

text \<open>
  The claim C5 as stated, for any sequence of calls, fails at a \<open>notifyRemove\<close> that
  carries the unset value itself: the insert path has no assertion, the call does not
  fail, and the fresh entry has both serial numbers equal.
\<close>

theorem put_remove_serials_differ_counterexample:
  "run newHandler [Remove 7 0] =
     Some ([(Remove 7 0, [])],
           newHandler\<lparr>pendingRemove :=
             [7 \<mapsto> \<lparr>removeSerialNum = 0, putSerialNum = 0, refCount = 1\<rparr>]\<rparr>) \<and>
   pendingRemove
     (newHandler\<lparr>pendingRemove :=
        [7 \<mapsto> \<lparr>removeSerialNum = 0, putSerialNum = 0, refCount = 1\<rparr>]\<rparr>) 7 =
     Some \<lparr>removeSerialNum = 0, putSerialNum = 0, refCount = 1\<rparr> \<and>
   putSerialNum \<lparr>removeSerialNum = 0, putSerialNum = 0, refCount = 1\<rparr> =
     removeSerialNum \<lparr>removeSerialNum = 0, putSerialNum = 0, refCount = 1\<rparr> \<and>
   \<not> serialsDifferAt
     (newHandler\<lparr>pendingRemove :=
        [7 \<mapsto> \<lparr>removeSerialNum = 0, putSerialNum = 0, refCount = 1\<rparr>]\<rparr>) 7"
  by (simp add: newHandler_def notifyRemove_def newPendingRemoveEntry_def unsetSerialNum_def
      serialsDifferAt_def)

subsection \<open>removeListeners\<close>

lemma removeListeners_loop_filter:
  "removeListeners_loop ls docTypeName keepNames =
     (filter (\<lambda>listener. \<not> shouldRemoveListener listener docTypeName keepNames) ls,
      filter (\<lambda>listener. shouldRemoveListener listener docTypeName keepNames) ls)"
  by (induction ls) simp_all

text \<open>
  C9. On an open handler \<open>removeListeners(docType, keepNames)\<close> makes no callback and
  leaves in the registry, in their order, exactly the listeners that are of another
  document type or have a name in \<open>keepNames\<close>; the others are the ones moved to
  \<open>deferredDelete\<close>. The pending-remove table and the closed flag stay as they are.
\<close>

theorem removeListeners_open:
  "\<not> closed h \<Longrightarrow>
   \<exists>h'. removeListeners h docTypeName keepNames = Some ([], h') \<and>
     listeners h' =
       filter (\<lambda>listener. \<not> (getDocTypeName listener = docTypeName \<and>
                               getName listener \<notin> keepNames)) (listeners h) \<and>
     snd (removeListeners_loop (listeners h) docTypeName keepNames) =
       filter (\<lambda>listener. getDocTypeName listener = docTypeName \<and>
                            getName listener \<notin> keepNames) (listeners h) \<and>
     pendingRemove h' = pendingRemove h \<and> closed h' = closed h"
  by (simp add: removeListeners_def removeListeners_loop_filter shouldRemoveListener_def)

theorem removeListeners_open_witness:
  "\<not> closed (listeningHandler [listenerA, listenerC, listenerB]) \<and>
   removeListeners (listeningHandler [listenerA, listenerC, listenerB]) ''music'' {''album''} =
     Some ([], listeningHandler [listenerC, listenerB]) \<and>
   snd (removeListeners_loop [listenerA, listenerC, listenerB] ''music'' {''album''}) =
     [listenerA]"
  using removeListeners_open [of "listeningHandler [listenerA, listenerC, listenerB]"
      "''music''" "{''album''}"]
  by (auto simp: listeningHandler_def listenerA_def listenerB_def listenerC_def
      removeListeners_def)

subsection \<open>close\<close>

lemma step_closed:
  "closed h \<Longrightarrow> listeners h = [] \<Longrightarrow> step h c = Some (ds, h') \<Longrightarrow>
   closed h' \<and> listeners h' = [] \<and> ds = []"
  by (cases c)
     (auto simp: notifyPutDone_def notifyRemove_def notifyRemoveDone_def
        addListener_def removeListeners_def close_def
        split: option.splits if_splits)

lemma run_closed:
  "closed h \<Longrightarrow> listeners h = [] \<Longrightarrow> run h cs = Some (log, h') \<Longrightarrow>
   closed h' \<and> listeners h' = [] \<and> list_all (\<lambda>(c, ds). ds = []) log"
proof (induction cs arbitrary: h log)
  case Nil
  then show ?case by auto
next
  case (Cons c cs)
  from Cons.prems(3) obtain ds h1 log1 where
    s: "step h c = Some (ds, h1)" and r: "run h1 cs = Some (log1, h')"
    and l: "log = (c, ds) # log1"
    by (auto split: option.splits)
  from step_closed [OF Cons.prems(1,2) s]
  have c1: "closed h1" and l1: "listeners h1 = []" and d: "ds = []" by simp_all
  from Cons.IH [OF c1 l1 r] l d show ?case by simp
qed

text \<open>
  C8. \<open>close\<close> never fails and makes no callback. After it the handler is closed and the
  registry is empty, a second \<open>close\<close> returns the same state, and whatever calls
  follow without a failed assertion, the handler stays closed, the registry stays
  empty and no call makes a callback.
\<close>

theorem close_terminal:
  "\<exists>h1. close h = Some ([], h1) \<and> closed h1 \<and> listeners h1 = [] \<and>
      pendingRemove h1 = pendingRemove h \<and>
      close h1 = Some ([], h1) \<and>
      (\<forall>cs log h2. run h1 cs = Some (log, h2) \<longrightarrow>
         closed h2 \<and> listeners h2 = [] \<and> list_all (\<lambda>(c, ds). ds = []) log)"
proof -
  define h1 where "h1 = h\<lparr>closed := True, listeners := []\<rparr>"
  have a: "close h = Some ([], h1)" by (simp add: close_def h1_def)
  have b: "closed h1" "listeners h1 = []" "pendingRemove h1 = pendingRemove h"
    by (simp_all add: h1_def)
  have c: "close h1 = Some ([], h1)" by (simp add: close_def h1_def)
  from a b c run_closed [OF b(1,2)] show ?thesis by blast
qed

theorem close_terminal_witness:
  "close (pendingHandler 10 0 1) =
     Some ([], \<lparr>listeners = [], closed = True,
                pendingRemove = [7 \<mapsto> \<lparr>removeSerialNum = 10, putSerialNum = 0, refCount = 1\<rparr>]\<rparr>) \<and>
   run \<lparr>listeners = [], closed = True,
        pendingRemove = [7 \<mapsto> \<lparr>removeSerialNum = 10, putSerialNum = 0, refCount = 1\<rparr>]\<rparr>
     [PutDone 8 3 5, Remove 9 4, AddListener listenerC, RemoveListeners ''music'' {}, Close,
      PutDone 9 3 6] =
     Some ([(PutDone 8 3 5, []), (Remove 9 4, []), (AddListener listenerC, []),
            (RemoveListeners ''music'' {}, []), (Close, []), (PutDone 9 3 6, [])],
           \<lparr>listeners = [], closed = True,
            pendingRemove = [7 \<mapsto> \<lparr>removeSerialNum = 10, putSerialNum = 0, refCount = 1\<rparr>,
                             9 \<mapsto> \<lparr>removeSerialNum = 4, putSerialNum = 6, refCount = 1\<rparr>]\<rparr>) \<and>
   list_all (\<lambda>(c, ds). ds = [])
     [(PutDone 8 3 5, []), (Remove 9 4, []), (AddListener listenerC, []),
      (RemoveListeners ''music'' {}, []), (Close, []), (PutDone 9 3 (6::nat), [])]"
proof -
  let ?hc = "\<lparr>listeners = [], closed = True,
        pendingRemove = [7 \<mapsto> \<lparr>removeSerialNum = 10, putSerialNum = 0, refCount = 1\<rparr>]\<rparr>"
  let ?cs = "[PutDone 8 3 5, Remove 9 4, AddListener listenerC, RemoveListeners ''music'' {},
      Close, PutDone 9 3 6]"
  let ?log = "[(PutDone 8 3 5, []), (Remove 9 4, []), (AddListener listenerC, []),
            (RemoveListeners ''music'' {}, []), (Close, []), (PutDone 9 3 6, [])]"
  let ?hf = "\<lparr>listeners = [], closed = True,
            pendingRemove = [7 \<mapsto> \<lparr>removeSerialNum = 10, putSerialNum = 0, refCount = 1\<rparr>,
                             9 \<mapsto> \<lparr>removeSerialNum = 4, putSerialNum = 6, refCount = 1\<rparr>]\<rparr>"
  have c: "close (pendingHandler 10 0 1) = Some ([], ?hc)"
    by (simp add: close_def pendingHandler_def)
  have r: "run ?hc ?cs = Some (?log, ?hf)"
    by (simp add: notifyPutDone_def notifyRemove_def addListener_def removeListeners_def
        close_def newPendingRemoveEntry_def unsetSerialNum_def)
  from close_terminal [of "pendingHandler 10 0 1"] obtain h1 where
    a: "close (pendingHandler 10 0 1) = Some ([], h1)" and
    b: "\<forall>cs log h2. run h1 cs = Some (log, h2) \<longrightarrow>
         closed h2 \<and> listeners h2 = [] \<and> list_all (\<lambda>(c, ds). ds = []) log"
    by blast
  from a c have e: "h1 = ?hc" by simp
  from b [unfolded e, rule_format, OF r]
  have "list_all (\<lambda>(c, ds). ds = []) ?log" by simp
  with c r show ?thesis by simp
qed

subsection \<open>The listener registry\<close>

lemma hasListener_identity:
  "hasListener ls docTypeName name \<longleftrightarrow> (docTypeName, name) \<in> set (map identity ls)"
  by (induction ls) (auto simp: identity_def)

lemma step_registryInvariant:
  "registryInvariant h \<Longrightarrow> step h c = Some (ds, h') \<Longrightarrow> registryInvariant h'"
  by (cases c)
     (auto simp: registryInvariant_def notifyPutDone_def notifyRemove_def notifyRemoveDone_def
        addListener_def removeListeners_def close_def hasListener_identity
        removeListeners_loop_filter distinct_map_filter identity_def
        split: option.splits if_splits)

lemma run_registryInvariant:
  "registryInvariant h \<Longrightarrow> run h cs = Some (log, h') \<Longrightarrow> registryInvariant h'"
proof (induction cs arbitrary: h log)
  case Nil
  then show ?case by simp
next
  case (Cons c cs)
  from Cons.prems(2) obtain ds h1 log1 where
    s: "step h c = Some (ds, h1)" and r: "run h1 cs = Some (log1, h')"
    by (auto split: option.splits)
  from step_registryInvariant [OF Cons.prems(1) s] have "registryInvariant h1" .
  from Cons.IH [OF this r] show ?case .
qed

lemma newHandler_registryInvariant: "registryInvariant newHandler"
  by (simp add: registryInvariant_def newHandler_def)

lemma distinct_identity_once:
  "distinct (map identity ls) \<Longrightarrow> i \<in> set (map identity ls) \<Longrightarrow>
   length (filter (\<lambda>x. identity x = i) ls) = 1"
proof (induction ls)
  case Nil
  then show ?case by simp
next
  case (Cons a ls)
  show ?case
  proof (cases "identity a = i")
    case True
    from Cons.prems(1) have "identity a \<notin> identity ` set ls" by simp
    with True have "\<forall>x \<in> set ls. identity x \<noteq> i" by blast
    then have "filter (\<lambda>x. identity x = i) ls = []" by (simp add: filter_empty_conv)
    with True show ?thesis by simp
  next
    case False
    with Cons show ?thesis by auto
  qed
qed

text \<open>
  C7, as the code has it. In an open state reached from a new handler, two
  \<open>addListener\<close> calls with listeners of one identity leave exactly one listener of that
  identity in the registry, and the second call changes nothing and makes no callback.
  The first call appends its listener and calls \<open>notifyRegistered\<close> on it, once, when
  no listener of that identity was registered before; when one was, the first call
  changes nothing and makes no callback either. On a closed handler \<open>addListener\<close>
  changes nothing when the registry is empty, as it is in every closed state reached
  from a new handler, and fails the assertion when it is not.
\<close>

theorem addListener_twice:
  assumes reach: "run newHandler cs = Some (log, h)"
    and same: "identity l2 = identity l1"
  shows "(\<not> closed h \<longrightarrow>
            (\<exists>ds1 h1. addListener h l1 = Some (ds1, h1) \<and>
               addListener h1 l2 = Some ([], h1) \<and>
               length (filter (\<lambda>x. identity x = identity l1) (listeners h1)) = 1 \<and>
               (if hasListener (listeners h) (getDocTypeName l1) (getName l1)
                then ds1 = [] \<and> h1 = h
                else ds1 = [(l1, CbRegistered)] \<and>
                     h1 = h\<lparr>listeners := listeners h @ [l1]\<rparr>))) \<and>
         (closed h \<longrightarrow> addListener h l1 = Some ([], h)) \<and>
         (closed k \<longrightarrow>
            addListener k l1 = (if listeners k = [] then Some ([], k) else None))"
proof -
  have inv: "registryInvariant h"
    by (rule run_registryInvariant [OF newHandler_registryInvariant reach])
  have closedk: "closed k \<longrightarrow>
            addListener k l1 = (if listeners k = [] then Some ([], k) else None)"
    by (simp add: addListener_def)
  have closedh: "closed h \<longrightarrow> addListener h l1 = Some ([], h)"
    using inv by (simp add: addListener_def registryInvariant_def)
  have opn: "\<exists>ds1 h1. addListener h l1 = Some (ds1, h1) \<and>
               addListener h1 l2 = Some ([], h1) \<and>
               length (filter (\<lambda>x. identity x = identity l1) (listeners h1)) = 1 \<and>
               (if hasListener (listeners h) (getDocTypeName l1) (getName l1)
                then ds1 = [] \<and> h1 = h
                else ds1 = [(l1, CbRegistered)] \<and>
                     h1 = h\<lparr>listeners := listeners h @ [l1]\<rparr>)"
    if o: "\<not> closed h"
  proof (cases "hasListener (listeners h) (getDocTypeName l1) (getName l1)")
    case True
    from same have s2: "getDocTypeName l2 = getDocTypeName l1" "getName l2 = getName l1"
      by (simp_all add: identity_def)
    from True have "identity l1 \<in> set (map identity (listeners h))"
      by (simp add: hasListener_identity identity_def)
    with inv have "length (filter (\<lambda>x. identity x = identity l1) (listeners h)) = 1"
      by (simp add: registryInvariant_def distinct_identity_once)
    with True o s2 show ?thesis by (simp add: addListener_def)
  next
    case False
    from same have s2: "getDocTypeName l2 = getDocTypeName l1" "getName l2 = getName l1"
      by (simp_all add: identity_def)
    let ?h1 = "h\<lparr>listeners := listeners h @ [l1]\<rparr>"
    from inv step_registryInvariant [of h "AddListener l1" "[(l1, CbRegistered)]" ?h1] False o
    have inv1: "registryInvariant ?h1" by (simp add: addListener_def)
    have has1: "hasListener (listeners ?h1) (getDocTypeName l1) (getName l1)"
      by (simp add: hasListener_identity identity_def)
    then have "identity l1 \<in> set (map identity (listeners ?h1))"
      by (simp add: hasListener_identity identity_def)
    with inv1 have "length (filter (\<lambda>x. identity x = identity l1) (listeners ?h1)) = 1"
      unfolding registryInvariant_def by (blast intro: distinct_identity_once)
    with False o s2 has1 show ?thesis by (simp add: addListener_def)
  qed
  from opn closedh closedk show ?thesis by blast
qed

theorem addListener_twice_witness:
  "run newHandler [AddListener listenerB] =
     Some ([(AddListener listenerB, [(listenerB, CbRegistered)])], listeningHandler [listenerB]) \<and>
   identity listenerA2 = identity listenerA \<and>
   \<not> closed (listeningHandler [listenerB]) \<and>
   addListener (listeningHandler [listenerB]) listenerA =
     Some ([(listenerA, CbRegistered)], listeningHandler [listenerB, listenerA]) \<and>
   addListener (listeningHandler [listenerB, listenerA]) listenerA2 =
     Some ([], listeningHandler [listenerB, listenerA]) \<and>
   length (filter (\<lambda>x. identity x = identity listenerA) [listenerB, listenerA]) = 1 \<and>
   run newHandler [Close] = Some ([(Close, [])], newHandler\<lparr>closed := True\<rparr>) \<and>
   addListener (newHandler\<lparr>closed := True\<rparr>) listenerA =
     Some ([], newHandler\<lparr>closed := True\<rparr>) \<and>
   addListener ((listeningHandler [listenerB])\<lparr>closed := True\<rparr>) listenerA = None"
proof -
  have r1: "run newHandler [AddListener listenerB] =
     Some ([(AddListener listenerB, [(listenerB, CbRegistered)])], listeningHandler [listenerB])"
    by (simp add: newHandler_def listeningHandler_def addListener_def)
  have r2: "run newHandler [Close] = Some ([(Close, [])], newHandler\<lparr>closed := True\<rparr>)"
    by (simp add: newHandler_def close_def)
  have same: "identity listenerA2 = identity listenerA"
    by (simp add: identity_def listenerA_def listenerA2_def)
  from r1 r2 same
    addListener_twice [OF r1 same, of "(listeningHandler [listenerB])\<lparr>closed := True\<rparr>"]
    addListener_twice [OF r2 same, of "newHandler"]
  show ?thesis
    by (simp add: newHandler_def listeningHandler_def identity_def listenerA_def
        listenerB_def addListener_def)
qed

text \<open>
  The claim C7 as stated, one \<open>notifyRegistered\<close> call for every open handler, fails
  where a listener of the identity is registered already: both calls return without
  a callback.
\<close>

theorem addListener_twice_counterexample:
  "run newHandler [AddListener listenerA] =
     Some ([(AddListener listenerA, [(listenerA, CbRegistered)])], listeningHandler [listenerA]) \<and>
   \<not> closed (listeningHandler [listenerA]) \<and>
   identity listenerA3 = identity listenerA2 \<and>
   run (listeningHandler [listenerA]) [AddListener listenerA2, AddListener listenerA3] =
     Some ([(AddListener listenerA2, []), (AddListener listenerA3, [])],
           listeningHandler [listenerA]) \<and>
   registeredCalls [(AddListener listenerA2, []), (AddListener listenerA3, [])] = 0 \<and>
   registeredCalls [(AddListener listenerA2, []), (AddListener listenerA3, [])] \<noteq> 1"
  by (simp add: newHandler_def listeningHandler_def addListener_def identity_def
      listenerA_def listenerA2_def listenerA3_def registeredCalls_def)

subsection \<open>The order of the delivered notifications\<close>

lemma deliveredAbout_Nil: "deliveredAbout g [] = False"
  by (simp add: deliveredAbout_def)

lemma deliveredAbout_notifyPutDone:
  "deliveredAbout g (notifyPutDone_listeners ls gid l) \<longleftrightarrow> gid = g \<and> ls \<noteq> []"
  by (induction ls) (auto simp: deliveredAbout_def)

lemma deliveredAbout_notifyRemove:
  "deliveredAbout g (notifyRemove_listeners ls gid) \<longleftrightarrow> gid = g \<and> ls \<noteq> []"
  by (induction ls) (auto simp: deliveredAbout_def)

lemma sorted_wrt_less_snoc:
  "sorted_wrt (<) (xs @ [s::nat]) \<longleftrightarrow> sorted_wrt (<) xs \<and> (\<forall>x \<in> set xs. x < s)"
  by (auto simp: sorted_wrt_append)

lemma step_PutDone_order:
  assumes inv: "orderInvariant g h seen"
    and ord: "absentCallOrdered g h seen (PutDone gid l serialNum)"
    and s: "notifyPutDone h gid l serialNum = Some (ds, h')"
  shows "orderInvariant g h' (seen @ deliveredSerial g (PutDone gid l serialNum) ds)"
proof (cases "gid = g")
  case False
  with s have "pendingRemove h' g = pendingRemove h g" "\<not> deliveredAbout g ds"
    by (auto simp: notifyPutDone_def deliveredAbout_notifyPutDone deliveredAbout_Nil
        split: option.splits if_splits)
  with inv show ?thesis by (simp add: orderInvariant_def deliveredSerial_def)
next
  case True
  show ?thesis
  proof (cases "pendingRemove h g")
    case None
    with True s have h': "h' = h" by (simp add: notifyPutDone_def)
    from None True ord have "\<forall>x \<in> set seen. x < serialNum"
      by (simp add: absentCallOrdered_def list_all_iff)
    with inv None h' show ?thesis
      by (simp add: orderInvariant_def deliveredSerial_def sorted_wrt_less_snoc)
  next
    case (Some entry)
    from inv Some have
      srt: "sorted_wrt (<) seen" and
      bnd: "\<forall>x \<in> set seen. x \<le> max (removeSerialNum entry) (putSerialNum entry)"
      by (simp_all add: orderInvariant_def list_all_iff)
    show ?thesis
    proof (cases "removeSerialNum entry > serialNum")
      case True
      with s Some \<open>gid = g\<close> have "h' = h" "ds = []" by (simp_all add: notifyPutDone_def)
      with inv show ?thesis by (simp add: deliveredSerial_def deliveredAbout_Nil)
    next
      case False
      with s Some \<open>gid = g\<close> have
        r: "removeSerialNum entry < serialNum" and p: "putSerialNum entry < serialNum" and
        h': "pendingRemove h' g = Some (entry\<lparr>putSerialNum := serialNum\<rparr>)"
        by (auto simp: notifyPutDone_def split: if_splits)
      from bnd r p have below: "\<forall>x \<in> set seen. x < serialNum" by auto
      with srt h' r show ?thesis
        by (auto simp: orderInvariant_def deliveredSerial_def sorted_wrt_less_snoc
            list_all_iff)
    qed
  qed
qed

lemma step_Remove_order:
  assumes inv: "orderInvariant g h seen"
    and ord: "absentCallOrdered g h seen (Remove gid serialNum)"
    and s: "notifyRemove h gid serialNum = Some (ds, h')"
  shows "orderInvariant g h' (seen @ deliveredSerial g (Remove gid serialNum) ds)"
proof (cases "gid = g")
  case False
  with s have "pendingRemove h' g = pendingRemove h g" "\<not> deliveredAbout g ds"
    by (auto simp: notifyRemove_def deliveredAbout_notifyRemove deliveredAbout_Nil
        split: option.splits if_splits)
  with inv show ?thesis by (simp add: orderInvariant_def deliveredSerial_def)
next
  case True
  show ?thesis
  proof (cases "pendingRemove h g")
    case None
    with True s have h': "pendingRemove h' g = Some (newPendingRemoveEntry serialNum)"
      by (auto simp: notifyRemove_def)
    from None True ord have "\<forall>x \<in> set seen. x < serialNum"
      by (simp add: absentCallOrdered_def list_all_iff)
    with inv h' show ?thesis
      by (auto simp: orderInvariant_def deliveredSerial_def sorted_wrt_less_snoc
          list_all_iff newPendingRemoveEntry_def)
  next
    case (Some entry)
    from inv Some have
      srt: "sorted_wrt (<) seen" and
      bnd: "\<forall>x \<in> set seen. x \<le> max (removeSerialNum entry) (putSerialNum entry)"
      by (simp_all add: orderInvariant_def list_all_iff)
    from s Some \<open>gid = g\<close> have
      r: "removeSerialNum entry < serialNum" and p: "putSerialNum entry < serialNum" and
      h': "pendingRemove h' g =
             Some (entry\<lparr>removeSerialNum := serialNum, refCount := refCount entry + 1\<rparr>)"
      by (auto simp: notifyRemove_def split: if_splits)
    from bnd r p have below: "\<forall>x \<in> set seen. x < serialNum" by auto
    with srt h' show ?thesis
      by (auto simp: orderInvariant_def deliveredSerial_def sorted_wrt_less_snoc
          list_all_iff)
  qed
qed

lemma step_order:
  assumes inv: "orderInvariant g h seen"
    and ord: "absentCallOrdered g h seen c"
    and s: "step h c = Some (ds, h')"
  shows "orderInvariant g h' (seen @ deliveredSerial g c ds)"
proof (cases c)
  case (PutDone gid l serialNum)
  with step_PutDone_order [of g h seen gid l serialNum ds h'] assms show ?thesis by simp
next
  case (Remove gid serialNum)
  with step_Remove_order [of g h seen gid serialNum ds h'] assms show ?thesis by simp
next
  case (RemoveDone gid serialNum)
  with inv s show ?thesis
    by (auto simp: orderInvariant_def deliveredSerial_def notifyRemoveDone_def
        split: option.splits if_splits)
next
  case (AddListener listener)
  with inv s show ?thesis
    by (auto simp: orderInvariant_def deliveredSerial_def addListener_def
        split: option.splits if_splits)
next
  case (RemoveListeners docTypeName keepNames)
  with inv s show ?thesis
    by (auto simp: orderInvariant_def deliveredSerial_def removeListeners_def
        split: option.splits if_splits)
next
  case Close
  with inv s show ?thesis
    by (auto simp: orderInvariant_def deliveredSerial_def close_def)
qed

lemma run_order:
  "orderInvariant g h seen \<Longrightarrow> absentCallsOrdered g h seen cs \<Longrightarrow>
   run h cs = Some (log, h') \<Longrightarrow> sorted_wrt (<) (seen @ deliveredSerials g log)"
proof (induction cs arbitrary: h seen log)
  case Nil
  then show ?case by (simp add: orderInvariant_def)
next
  case (Cons c cs)
  from Cons.prems(3) obtain ds h1 log1 where
    s: "step h c = Some (ds, h1)" and r: "run h1 cs = Some (log1, h')"
    and l: "log = (c, ds) # log1"
    by (auto split: option.splits)
  from Cons.prems(2) s have
    o1: "absentCallOrdered g h seen c" and
    o2: "absentCallsOrdered g h1 (seen @ deliveredSerial g c ds) cs"
    by simp_all
  from step_order [OF Cons.prems(1) o1 s]
  have "orderInvariant g h1 (seen @ deliveredSerial g c ds)" .
  from Cons.IH [OF this o2 r] l show ?case by simp
qed

text \<open>
  C4, as the code has it. Take any sequence of calls that runs without a failed
  assertion, from any state, and a gid such that every put or remove that arrives for
  it while the handler holds no pending-remove entry for it carries a serial number
  above those of all calls that delivered a notification about it before. Then the
  calls that deliver a notification about the gid do so in strictly increasing order
  of their serial numbers.
\<close>

theorem delivered_in_serial_order:
  assumes "run h cs = Some (log, h')" and "absentCallsOrdered g h [] cs"
  shows "sorted_wrt (<) (deliveredSerials g log)"
proof -
  have "orderInvariant g h []"
    by (simp add: orderInvariant_def split: option.splits)
  from run_order [OF this assms(2) assms(1)] show ?thesis by simp
qed

theorem delivered_in_serial_order_witness:
  "run (listeningHandler [listenerA])
     [PutDone 7 7 100, Remove 7 101, PutDone 7 8 99, RemoveDone 7 101] =
     Some ([(PutDone 7 7 100, [(listenerA, CbPutDone 7 7)]),
            (Remove 7 101, [(listenerA, CbRemove 7)]),
            (PutDone 7 8 99, []),
            (RemoveDone 7 101, [])],
           listeningHandler [listenerA]) \<and>
   absentCallsOrdered 7 (listeningHandler [listenerA]) []
     [PutDone 7 7 100, Remove 7 101, PutDone 7 8 99, RemoveDone 7 101] \<and>
   deliveredSerials 7
     [(PutDone 7 7 100, [(listenerA, CbPutDone 7 7)]),
      (Remove 7 101, [(listenerA, CbRemove 7)]),
      (PutDone 7 8 99, []),
      (RemoveDone 7 101, [])] = [100, 101] \<and>
   sorted_wrt (<) [100, 101 :: nat]"
proof -
  have r: "run (listeningHandler [listenerA])
     [PutDone 7 7 100, Remove 7 101, PutDone 7 8 99, RemoveDone 7 101] =
     Some ([(PutDone 7 7 100, [(listenerA, CbPutDone 7 7)]),
            (Remove 7 101, [(listenerA, CbRemove 7)]),
            (PutDone 7 8 99, []),
            (RemoveDone 7 101, [])],
           listeningHandler [listenerA])"
    by (simp add: listeningHandler_def notifyPutDone_def notifyRemove_def
        notifyRemoveDone_def newPendingRemoveEntry_def unsetSerialNum_def)
  have a: "absentCallsOrdered 7 (listeningHandler [listenerA]) []
     [PutDone 7 7 100, Remove 7 101, PutDone 7 8 99, RemoveDone 7 101]"
    by (simp add: listeningHandler_def notifyPutDone_def notifyRemove_def
        notifyRemoveDone_def newPendingRemoveEntry_def unsetSerialNum_def
        absentCallOrdered_def deliveredSerial_def deliveredAbout_def)
  have d: "deliveredSerials 7
     [(PutDone 7 7 100, [(listenerA, CbPutDone 7 7)]),
      (Remove 7 101, [(listenerA, CbRemove 7)]),
      (PutDone 7 8 99, []),
      (RemoveDone 7 101, [])] = [100, 101]"
    by (simp add: deliveredSerial_def deliveredAbout_def)
  from delivered_in_serial_order [OF r a] r a d show ?thesis by simp
qed

text \<open>
  The claim C4 as stated fails: the sequence below meets the caller contract, and the
  put with serial number 99, which completes after the remove 101 was marked done, is
  delivered after the notifications of 100 and 101.
\<close>

theorem delivered_in_serial_order_counterexample:
  "run newHandler [AddListener listenerA] =
     Some ([(AddListener listenerA, [(listenerA, CbRegistered)])], listeningHandler [listenerA]) \<and>
   callerContract [PutDone 7 7 100, Remove 7 101, RemoveDone 7 101, PutDone 7 8 99] \<and>
   list_all validOp [PutDone 7 7 100, Remove 7 101, RemoveDone 7 101, PutDone 7 8 99] \<and>
   run (listeningHandler [listenerA])
     [PutDone 7 7 100, Remove 7 101, RemoveDone 7 101, PutDone 7 8 99] =
     Some ([(PutDone 7 7 100, [(listenerA, CbPutDone 7 7)]),
            (Remove 7 101, [(listenerA, CbRemove 7)]),
            (RemoveDone 7 101, []),
            (PutDone 7 8 99, [(listenerA, CbPutDone 7 8)])],
           listeningHandler [listenerA]) \<and>
   deliveredSerials 7
     [(PutDone 7 7 100, [(listenerA, CbPutDone 7 7)]),
      (Remove 7 101, [(listenerA, CbRemove 7)]),
      (RemoveDone 7 101, []),
      (PutDone 7 8 99, [(listenerA, CbPutDone 7 8)])] = [100, 101, 99] \<and>
   \<not> sorted_wrt (<) [100, 101, 99 :: nat]"
  by (simp add: newHandler_def listeningHandler_def addListener_def notifyPutDone_def
      notifyRemove_def notifyRemoveDone_def newPendingRemoveEntry_def unsetSerialNum_def
      validSerialNum_def callerContract_def enumerate_eq_zip upt_rec
      deliveredSerial_def deliveredAbout_def)

text \<open>
  When the put and remove calls themselves arrive in increasing order of their serial
  numbers, the condition on the calls holds, and so does the order of the deliveries.
\<close>

lemma in_order_absentCallsOrdered:
  "sorted_wrt (<) (writeSerials cs) \<Longrightarrow>
   \<forall>x \<in> set seen. \<forall>s \<in> set (writeSerials cs). x < s \<Longrightarrow>
   absentCallsOrdered g h seen cs"
proof (induction cs arbitrary: h seen)
  case Nil
  then show ?case by simp
next
  case (Cons c cs)
  show ?case
  proof (cases "writeOf c")
    case None
    with Cons.prems have "sorted_wrt (<) (writeSerials cs)"
      "\<forall>x \<in> set seen. \<forall>s \<in> set (writeSerials cs). x < s" by simp_all
    from Cons.IH [OF this] None show ?thesis
      by (auto simp: absentCallOrdered_def deliveredSerial_def split: option.splits)
  next
    case (Some w)
    then obtain gid serialNum where w: "writeOf c = Some (gid, serialNum)"
      by (cases w) simp
    with Cons.prems have
      srt: "sorted_wrt (<) (writeSerials cs)" and
      later: "\<forall>s \<in> set (writeSerials cs). serialNum < s" and
      here: "\<forall>x \<in> set seen. x < serialNum" and
      rest: "\<forall>x \<in> set seen. \<forall>s \<in> set (writeSerials cs). x < s"
      by simp_all
    have step: "absentCallsOrdered g h1 (seen @ deliveredSerial g c ds) cs" for h1 ds
    proof (rule Cons.IH [OF srt])
      from later rest w
      show "\<forall>x \<in> set (seen @ deliveredSerial g c ds). \<forall>s \<in> set (writeSerials cs). x < s"
        by (auto simp: deliveredSerial_def)
    qed
    from w here step show ?thesis
      by (auto simp: absentCallOrdered_def list_all_iff split: option.splits)
  qed
qed

lemma in_order_calls_delivered_in_order:
  assumes "run h cs = Some (log, h')" and "sorted_wrt (<) (writeSerials cs)"
  shows "sorted_wrt (<) (deliveredSerials g log)"
proof -
  have inv: "orderInvariant g h []"
    by (simp add: orderInvariant_def split: option.splits)
  have "absentCallsOrdered g h [] cs"
    by (rule in_order_absentCallsOrdered [OF assms(2)]) simp
  from run_order [OF inv this assms(1)] show ?thesis by simp
qed

end
